theory Spec2Isabelle
  imports Complex_Main "HOL-Library.Word"
begin

section \<open>LSP session manager: a shallow embedding\<close>

text \<open>
  The development follows the Go daemon \<^verbatim>\<open>lsp-session-manager\<close>: its id codec, its
  framed codec on the LSP stdio, the request registry, the document registry, the
  progress tracker behind \<^verbatim>\<open>session/status\<close>, the API router and the polling file
  watcher. Go's \<^verbatim>\<open>int\<close> and \<^verbatim>\<open>int64\<close> are 64-bit two's complement words; byte
  slices and strings are \<^typ>\<open>string\<close> (a list of 8-bit characters).
\<close>

type_synonym int64 = "64 word"

subsection \<open>Progress tracker state and \<^verbatim>\<open>getStatus\<close>\<close>

text \<open>
  The fields of \<^verbatim>\<open>SessionManager\<close> guarded by \<^verbatim>\<open>indexingMu\<close>. A \<^verbatim>\<open>time.Time\<close> is
  the number of nanoseconds since Go's zero time, so \<^verbatim>\<open>IsZero\<close> is equality with 0.
  The \<^verbatim>\<open>float64\<close> speed is idealised as a real number: the rounding of floating-point
  division is not modelled.
\<close>

record progress =
  indexingActive :: bool
  indexingTitle :: string
  indexingMessage :: string
  indexingCurrent :: int64
  indexingTotal :: int64
  indexingPercentage :: int64
  indexingStartedAt :: int
  indexingFirstStartedAt :: int
  indexingLastUpdate :: int
  indexingSpeed :: real

text \<open>The zero value of the fields, as \<^verbatim>\<open>NewSessionManager\<close> leaves them.\<close>

definition progress0 :: progress where
  "progress0 = \<lparr>indexingActive = False, indexingTitle = [], indexingMessage = [],
     indexingCurrent = 0, indexingTotal = 0, indexingPercentage = 0,
     indexingStartedAt = 0, indexingFirstStartedAt = 0, indexingLastUpdate = 0,
     indexingSpeed = 0\<rparr>"









subsection \<open>Decimal integers: \<^verbatim>\<open>strconv.ParseInt\<close> and \<^verbatim>\<open>strconv.Atoi\<close>\<close>

text \<open>
  \<^verbatim>\<open>strconv.ParseInt(s, 10, 64)\<close> accepts an optional sign followed by at least one
  decimal digit and fails when the value leaves the range of \<^verbatim>\<open>int64\<close>.
  \<^verbatim>\<open>strconv.Atoi\<close> is the same function on a 64-bit platform.
\<close>

definition isDigit :: "char \<Rightarrow> bool" where
  "isDigit c = (48 \<le> (of_char c :: nat) \<and> (of_char c :: nat) \<le> 57)"

definition digitVal :: "char \<Rightarrow> nat" where
  "digitVal c = of_char c - 48"

fun parseDigits :: "nat \<Rightarrow> string \<Rightarrow> nat option" where
  "parseDigits n [] = Some n"
| "parseDigits n (c # cs) =
     (if isDigit c then parseDigits (n * 10 + digitVal c) cs else None)"

definition ParseUint :: "string \<Rightarrow> nat option" where
  "ParseUint s = (if s = [] then None else parseDigits 0 s)"

definition ParseInt :: "string \<Rightarrow> int option" where
  "ParseInt s =
     (case s of
        [] \<Rightarrow> None
      | c # cs \<Rightarrow>
          if c = CHR ''+'' then
            (case ParseUint cs of
               Some n \<Rightarrow> if int n < 2 ^ 63 then Some (int n) else None
             | None \<Rightarrow> None)
          else if c = CHR ''-'' then
            (case ParseUint cs of
               Some n \<Rightarrow> if int n \<le> 2 ^ 63 then Some (- int n) else None
             | None \<Rightarrow> None)
          else
            (case ParseUint s of
               Some n \<Rightarrow> if int n < 2 ^ 63 then Some (int n) else None
             | None \<Rightarrow> None))"

definition Atoi :: "string \<Rightarrow> int option" where
  "Atoi s = ParseInt s"

subsection \<open>The id codec: \<^verbatim>\<open>JSONRPCID\<close>\<close>

text \<open>
  The bytes handed to \<^verbatim>\<open>UnmarshalJSON\<close> are one JSON value. \<^verbatim>\<open>encoding/json\<close>
  reads them, so the model takes the value as the library sees it: the literal
  \<^verbatim>\<open>null\<close>, a number literal that is an integer (with its value), a number literal
  with a fraction or an exponent, a string literal (with its decoded content), or
  anything else (a boolean, an array, an object). \<^verbatim>\<open>json.Marshal\<close> of an \<^verbatim>\<open>int64\<close>
  is the integer literal and of a string the string literal.
\<close>

datatype json_id = JNull | JInt int | JFrac | JString string | JOther

datatype id_error = BadID

record JSONRPCID =
  intValue :: "int64 option"
  strValue :: "string option"

text \<open>The zero value: the state of an id before decoding, and of an absent id field.\<close>

definition zeroID :: JSONRPCID where
  "zeroID = \<lparr>intValue = None, strValue = None\<rparr>"

definition UnmarshalJSON :: "JSONRPCID \<Rightarrow> json_id \<Rightarrow> id_error + JSONRPCID" where
  "UnmarshalJSON i data =
     (case data of
        JNull \<Rightarrow> Inr i
      | JInt n \<Rightarrow>
          if - (2 ^ 63) \<le> n \<and> n < 2 ^ 63 then Inr (i\<lparr>intValue := Some (word_of_int n)\<rparr>)
          else Inl BadID
      | JString s \<Rightarrow>
          (case ParseInt s of
             Some parsed \<Rightarrow>
               Inr (i\<lparr>strValue := Some s, intValue := Some (word_of_int parsed)\<rparr>)
           | None \<Rightarrow> Inr (i\<lparr>strValue := Some s\<rparr>))
      | JFrac \<Rightarrow> Inl BadID
      | JOther \<Rightarrow> Inl BadID)"

definition MarshalJSON :: "JSONRPCID \<Rightarrow> json_id" where
  "MarshalJSON i =
     (case intValue i of
        Some v \<Rightarrow> JInt (sint v)
      | None \<Rightarrow> (case strValue i of Some s \<Rightarrow> JString s | None \<Rightarrow> JNull))"

definition AsInt64 :: "JSONRPCID \<Rightarrow> int64" where
  "AsInt64 i = (case intValue i of Some v \<Rightarrow> v | None \<Rightarrow> 0)"

definition IsSet :: "JSONRPCID \<Rightarrow> bool" where
  "IsSet i = (intValue i \<noteq> None \<or> strValue i \<noteq> None)"

text \<open>Parse, then serialize: an error of the parse is kept.\<close>

definition parse_then_serialize :: "json_id \<Rightarrow> id_error + json_id" where
  "parse_then_serialize data =
     (case UnmarshalJSON zeroID data of Inl e \<Rightarrow> Inl e | Inr i \<Rightarrow> Inr (MarshalJSON i))"


subsection \<open>The framed codec\<close>

text \<open>
  \<^verbatim>\<open>strings.TrimSpace\<close> is modelled on ASCII white space: the header block of the
  LSP base protocol is ASCII, and a byte above 127 is never white space by itself.
  \<^verbatim>\<open>decimal\<close> is \<^verbatim>\<open>fmt.Sprintf("%d", n)\<close> for a length \<open>n\<close>; \<^verbatim>\<open>ReadString\<close> is
  \<^verbatim>\<open>bufio.Reader.ReadString('\n')\<close> on the bytes still to come, with \<open>None\<close> when the
  stream ends before a newline. The input of \<^verbatim>\<open>readLSPMessage\<close> is all the bytes the
  child will write before its stdout ends; the result is the body or the error, and the
  bytes left unread. The memory a body needs is not modelled.
\<close>


definition isSpace :: "char \<Rightarrow> bool" where
  "isSpace c = (c = CHR 0x09 \<or> c = CHR 0x0A \<or> c = CHR 0x0B \<or> c = CHR 0x0C
                  \<or> c = CHR 0x0D \<or> c = CHR 0x20)"

definition TrimSpace :: "string \<Rightarrow> string" where
  "TrimSpace s = rev (dropWhile isSpace (rev (dropWhile isSpace s)))"

definition HasPrefix :: "string \<Rightarrow> string \<Rightarrow> bool" where
  "HasPrefix s p = (take (length p) s = p)"

definition TrimPrefix :: "string \<Rightarrow> string \<Rightarrow> string" where
  "TrimPrefix s p = (if HasPrefix s p then drop (length p) s else s)"

definition digitChar :: "nat \<Rightarrow> char" where
  "digitChar d = ''0123456789'' ! d"

fun decimal :: "nat \<Rightarrow> string" where
  "decimal n =
     (if n < 10 then [digitChar n]
      else decimal (n div 10) @ [digitChar (n mod 10)])"

declare decimal.simps [simp del]

definition CRLF :: string where
  "CRLF = [CHR 0x0D, CHR 0x0A]"

definition frameHeader :: "nat \<Rightarrow> string" where
  "frameHeader n = ''Content-Length: '' @ decimal n @ CRLF @ CRLF"

fun ReadString :: "string \<Rightarrow> (string \<times> string) option" where
  "ReadString [] = None"
| "ReadString (c # cs) =
     (if c = CHR 0x0A then Some ([c], cs)
      else (case ReadString cs of
              None \<Rightarrow> None
            | Some (l, r) \<Rightarrow> Some (c # l, r)))"

datatype read_error =
  EOF | ErrUnexpectedEOF | InvalidContentLength | MissingContentLength | NegativeLengthPanic

function readHeaders :: "int \<Rightarrow> string \<Rightarrow> (read_error + int) \<times> string" where
  "readHeaders contentLength s =
     (case ReadString s of
        None \<Rightarrow> (Inl EOF, [])
      | Some (l, rest) \<Rightarrow>
          (let line = TrimSpace l in
           if line = [] then (Inr contentLength, rest)
           else if HasPrefix line ''Content-Length:'' then
             (case Atoi (TrimSpace (TrimPrefix line ''Content-Length:'')) of
                None \<Rightarrow> (Inl InvalidContentLength, rest)
              | Some n \<Rightarrow> readHeaders n rest)
           else readHeaders contentLength rest))"
  by pat_completeness auto
termination
proof -
  have shorter: "length r < length s" if "ReadString s = Some (l, r)" for s l r
    using that by (induction s arbitrary: l r) (auto split: if_splits option.splits)
  show ?thesis
    by (relation "measure (\<lambda>(c, s). length s)") (auto dest: shorter)
qed

declare readHeaders.simps [simp del]

definition ReadFull :: "nat \<Rightarrow> string \<Rightarrow> (read_error + string) \<times> string" where
  "ReadFull n s =
     (if n \<le> length s then (Inr (take n s), drop n s)
      else (Inl (if s = [] then EOF else ErrUnexpectedEOF), []))"

definition readLSPMessage :: "string \<Rightarrow> (read_error + string) \<times> string" where
  "readLSPMessage s =
     (case readHeaders 0 s of
        (Inl e, rest) \<Rightarrow> (Inl e, rest)
      | (Inr contentLength, rest) \<Rightarrow>
          if contentLength = 0 then (Inl MissingContentLength, rest)
          else if contentLength < 0 then (Inl NegativeLengthPanic, rest)
          else ReadFull (nat contentLength) rest)"

text \<open>
  The stdin of the child: the bytes written so far and whether the pipe still accepts
  writes. A \<^verbatim>\<open>Write\<close> to a closed pipe fails and writes nothing; to an open pipe it
  appends all its bytes. The argument \<open>body\<close> of \<^verbatim>\<open>writeMessage\<close> is the outcome of
  \<^verbatim>\<open>json.Marshal(msg)\<close>, \<open>None\<close> for its error.
\<close>

datatype write_error = MarshalError | PipeError

record lsp_stdin =
  written :: string
  pipeClosed :: bool

definition Write :: "string \<Rightarrow> lsp_stdin \<Rightarrow> bool \<times> lsp_stdin" where
  "Write bs p = (if pipeClosed p then (False, p) else (True, p\<lparr>written := written p @ bs\<rparr>))"

definition writeMessage :: "string option \<Rightarrow> lsp_stdin \<Rightarrow> write_error option \<times> lsp_stdin" where
  "writeMessage body p =
     (case body of
        None \<Rightarrow> (Some MarshalError, p)
      | Some b \<Rightarrow>
          (case Write (frameHeader (length b)) p of
             (False, p1) \<Rightarrow> (Some PipeError, p1)
           | (True, p1) \<Rightarrow>
               (case Write b p1 of
                  (False, p2) \<Rightarrow> (Some PipeError, p2)
                | (True, p2) \<Rightarrow> (None, p2))))"

subsection \<open>The reader loop \<^verbatim>\<open>readResponses\<close>\<close>

text \<open>
  \<^verbatim>\<open>json.Unmarshal(msg, &baseMsg)\<close> is library code up to the id field, which the
  repository decodes itself. The parameter \<open>unm\<close> is the library's part: it yields the
  fields of the JSON object with the id still as a JSON value, or \<open>None\<close> when the body
  is not a JSON object of that shape. \<^verbatim>\<open>decodeBaseMsg\<close> then applies
  \<^verbatim>\<open>UnmarshalJSON\<close> to the id; for the literal \<^verbatim>\<open>null\<close> the library leaves the
  pointer field nil without calling it.
\<close>

record lspResponse =
  Result :: string
  Err :: "(int \<times> string) option"

record wire_msg =
  w_id :: "json_id option"
  w_method :: string
  w_result :: string
  w_error :: "(int \<times> string) option"

record baseMsg =
  ID :: "JSONRPCID option"
  Method :: string
  Result_b :: string
  Error_b :: "(int \<times> string) option"

definition decodeBaseMsg :: "(string \<Rightarrow> wire_msg option) \<Rightarrow> string \<Rightarrow> baseMsg option" where
  "decodeBaseMsg unm msg =
     (case unm msg of
        None \<Rightarrow> None
      | Some w \<Rightarrow>
          (let m = \<lparr>ID = None, Method = w_method w, Result_b = w_result w,
                     Error_b = w_error w\<rparr>
           in case w_id w of
                None \<Rightarrow> Some m
              | Some JNull \<Rightarrow> Some m
              | Some v \<Rightarrow>
                  (case UnmarshalJSON zeroID v of
                     Inl e \<Rightarrow> None
                   | Inr i \<Rightarrow> Some (m\<lparr>ID := Some i\<rparr>))))"

text \<open>
  What one turn of the loop does, in order: log a read error and return; panic in
  \<^verbatim>\<open>make([]byte, n)\<close> for a negative length; log an unparseable body and go on; hand a
  response to the pending entry of its key; handle a notification; or nothing.
\<close>

datatype reader_action =
    LogReadError read_error
  | Panic
  | LogParseFailure string
  | Deliver int64 lspResponse
  | HandleNotification string string
  | Ignored

definition dispatch :: "baseMsg \<Rightarrow> string \<Rightarrow> reader_action" where
  "dispatch m msg =
     (case ID m of
        Some i \<Rightarrow>
          if IsSet i \<and> Method m = [] then
            Deliver (AsInt64 i) \<lparr>Result = Result_b m, Err = Error_b m\<rparr>
          else if Method m \<noteq> [] then HandleNotification (Method m) msg
          else Ignored
      | None \<Rightarrow> if Method m \<noteq> [] then HandleNotification (Method m) msg else Ignored)"





subsection \<open>The request registry: \<^verbatim>\<open>sendRequest\<close> against \<^verbatim>\<open>readResponses\<close>\<close>

text \<open>
  Calls of \<^verbatim>\<open>sendRequest\<close> run concurrently with each other and with the reader loop.
  The model interleaves their atomic steps. A call is numbered by its position among
  all calls; the number also names the channel \<^verbatim>\<open>respCh\<close> the call makes. A call is
  \<^item> \<open>Allocated i\<close> after the critical section that increments \<^verbatim>\<open>requestID\<close>, makes the
    channel of capacity one and stores it under the id \<open>i\<close>;
  \<^item> \<open>Selecting i\<close> once \<^verbatim>\<open>writeMessage\<close> has returned without error and the call waits in
    \<^verbatim>\<open>select\<close>;
  \<^item> \<open>Leaving i out\<close> once it has left the function body with the outcome \<open>out\<close> (the
    response taken from the channel, \<^verbatim>\<open>ctx.Err()\<close>, or the write error) and the
    deferred \<^verbatim>\<open>delete\<close> is still to run;
  \<^item> \<open>Returned i out\<close> after the deferred \<^verbatim>\<open>delete(sm.pending, id)\<close>.
\<close>

datatype outcome = Got lspResponse | DeadlineExceeded | WriteFailed

datatype call = Allocated int64 | Selecting int64 | Leaving int64 outcome | Returned int64 outcome

text \<open>The id a call allocated, and whether the call has returned.\<close>

fun call_id :: "call \<Rightarrow> int64" where
  "call_id (Allocated i) = i"
| "call_id (Selecting i) = i"
| "call_id (Leaving i out) = i"
| "call_id (Returned i out) = i"

fun returned :: "call \<Rightarrow> bool" where
  "returned (Returned i out) = True"
| "returned c = False"

text \<open>A call that has left its \<^verbatim>\<open>select\<close> never receives from its channel again.\<close>

fun left_select :: "call \<Rightarrow> bool" where
  "left_select (Leaving i out) = True"
| "left_select (Returned i out) = True"
| "left_select c = False"

text \<open>
  The shared state: the counter, the map \<^verbatim>\<open>sm.pending\<close> from ids to channels, the
  one-slot buffer of each channel, the program point of each call, the number of calls
  so far, and the send the reader is blocked in, if any. The reader sends while it holds
  \<^verbatim>\<open>pendingMu\<close>, so while it is blocked no other critical section can begin.
\<close>

record registry =
  requestID :: int64
  pending :: "int64 \<rightharpoonup> nat"
  buffer :: "nat \<rightharpoonup> lspResponse"
  calls :: "nat \<rightharpoonup> call"
  ncalls :: nat
  blocked :: "(nat \<times> lspResponse) option"

definition registry0 :: registry where
  "registry0 = \<lparr>requestID = 0, pending = Map.empty, buffer = Map.empty, calls = Map.empty,
     ncalls = 0, blocked = None\<rparr>"

text \<open>
  The atomic steps. \<open>Call\<close> is the allocation at the head of \<^verbatim>\<open>sendRequest\<close>;
  \<open>WriteOk\<close> and \<open>WriteFail\<close> are the two outcomes of \<^verbatim>\<open>writeMessage\<close>; \<open>Receive\<close> and
  \<open>Expire\<close> are the two branches of the \<^verbatim>\<open>select\<close> (a receive needs a value in the
  buffer; the deadline branch can be taken whenever the context is done, also with a
  value in the buffer); \<open>Cleanup\<close> is the deferred delete; \<open>Response k resp\<close> is the
  reader handling a response with lookup key \<open>k\<close>: it locks, looks \<open>k\<close> up and, if an
  entry is there, sends on its channel. The send \<^verbatim>\<open>ch <- resp\<close> is a plain send: with the
  buffer full it blocks until the buffer is emptied. \<open>None\<close> means that the step cannot
  be taken in that state.
\<close>

datatype event =
    Call
  | WriteOk nat
  | WriteFail nat
  | Receive nat
  | Expire nat
  | Cleanup nat
  | Response int64 lspResponse

text \<open>
  A receive that empties the buffer of the channel the reader is blocked on lets the
  blocked send complete.
\<close>

definition unblock :: "nat \<Rightarrow> registry \<Rightarrow> registry" where
  "unblock ch s =
     (case blocked s of
        Some (ch', resp') \<Rightarrow>
          if ch' = ch then s\<lparr>buffer := (buffer s)(ch \<mapsto> resp'), blocked := None\<rparr> else s
      | None \<Rightarrow> s)"

fun step :: "event \<Rightarrow> registry \<Rightarrow> registry option" where
  "step Call s =
     (if blocked s \<noteq> None then None
      else (let i = requestID s + 1; ch = ncalls s
            in Some (s\<lparr>requestID := i, pending := (pending s)(i \<mapsto> ch),
                      calls := (calls s)(ch \<mapsto> Allocated i), ncalls := Suc ch\<rparr>)))"
| "step (WriteOk ch) s =
     (case calls s ch of
        Some (Allocated i) \<Rightarrow> Some (s\<lparr>calls := (calls s)(ch \<mapsto> Selecting i)\<rparr>)
      | _ \<Rightarrow> None)"
| "step (WriteFail ch) s =
     (case calls s ch of
        Some (Allocated i) \<Rightarrow> Some (s\<lparr>calls := (calls s)(ch \<mapsto> Leaving i WriteFailed)\<rparr>)
      | _ \<Rightarrow> None)"
| "step (Receive ch) s =
     (case calls s ch of
        Some (Selecting i) \<Rightarrow>
          (case buffer s ch of
             None \<Rightarrow> None
           | Some resp \<Rightarrow>
               Some (unblock ch (s\<lparr>calls := (calls s)(ch \<mapsto> Leaving i (Got resp)),
                                   buffer := (buffer s)(ch := None)\<rparr>)))
      | _ \<Rightarrow> None)"
| "step (Expire ch) s =
     (case calls s ch of
        Some (Selecting i) \<Rightarrow>
          Some (s\<lparr>calls := (calls s)(ch \<mapsto> Leaving i DeadlineExceeded)\<rparr>)
      | _ \<Rightarrow> None)"
| "step (Cleanup ch) s =
     (if blocked s \<noteq> None then None
      else (case calls s ch of
              Some (Leaving i out) \<Rightarrow>
                Some (s\<lparr>pending := (pending s)(i := None),
                        calls := (calls s)(ch \<mapsto> Returned i out)\<rparr>)
            | _ \<Rightarrow> None))"
| "step (Response k resp) s =
     (if blocked s \<noteq> None then None
      else (case pending s k of
              None \<Rightarrow> Some s
            | Some ch \<Rightarrow>
                (case buffer s ch of
                   None \<Rightarrow> Some (s\<lparr>buffer := (buffer s)(ch \<mapsto> resp)\<rparr>)
                 | Some earlier \<Rightarrow> Some (s\<lparr>blocked := Some (ch, resp)\<rparr>))))"

text \<open>An execution: a sequence of steps, each possible where it is taken.\<close>

fun run :: "registry \<Rightarrow> event list \<Rightarrow> registry option" where
  "run s [] = Some s"
| "run s (e # es) = (case step e s of None \<Rightarrow> None | Some s' \<Rightarrow> run s' es)"

text \<open>
  The id of the call with number \<open>ch\<close>, and the invariant of the registry: the counter
  is the number of calls; an entry leads to the call that allocated its id and that
  call has not returned; a call that has not returned has its entry.
\<close>

definition id_of :: "nat \<Rightarrow> int64" where
  "id_of ch = of_nat (Suc ch)"

definition reg_inv :: "registry \<Rightarrow> bool" where
  "reg_inv s =
     (requestID s = of_nat (ncalls s)
      \<and> (\<forall>i ch. pending s i = Some ch \<longrightarrow>
            ch < ncalls s \<and> i = id_of ch \<and> (\<exists>c. calls s ch = Some c \<and> \<not> returned c))
      \<and> (\<forall>ch c. calls s ch = Some c \<longrightarrow> ch < ncalls s \<and> call_id c = id_of ch)
      \<and> (\<forall>ch c. calls s ch = Some c \<and> \<not> returned c \<longrightarrow> pending s (id_of ch) = Some ch))"

text \<open>
  The response a call has taken from its channel, and the second invariant, about an
  execution and the state it leads to: whatever sits in a buffer, in the blocked send or
  in the outcome of a call was handled by the reader under the id of that call.
\<close>

definition got :: "call \<Rightarrow> lspResponse option" where
  "got c = (case c of Leaving i (Got resp) \<Rightarrow> Some resp | Returned i (Got resp) \<Rightarrow> Some resp
            | _ \<Rightarrow> None)"

definition sent_inv :: "event list \<Rightarrow> registry \<Rightarrow> bool" where
  "sent_inv evs s =
     ((\<forall>ch resp. buffer s ch = Some resp \<longrightarrow> Response (id_of ch) resp \<in> set evs)
      \<and> (\<forall>ch resp. blocked s = Some (ch, resp) \<longrightarrow> Response (id_of ch) resp \<in> set evs)
      \<and> (\<forall>ch c resp. calls s ch = Some c \<and> got c = Some resp \<longrightarrow>
            Response (call_id c) resp \<in> set evs))"

subsection \<open>Notifications to the server and the document registry\<close>

text \<open>
  The parameters of the notifications the daemon originates, and the message map
  \<^verbatim>\<open>{"jsonrpc": "2.0", "method": ..., "params": ...}\<close> that \<^verbatim>\<open>sendNotification\<close> hands to
  \<^verbatim>\<open>writeMessage\<close>. \<^verbatim>\<open>json.Marshal\<close> is the parameter \<open>marshal\<close>, \<open>None\<close> for its error.
  The argument \<open>p\<close> of \<^verbatim>\<open>handleDidOpen\<close> and \<^verbatim>\<open>handleDidClose\<close> is the outcome of
  \<^verbatim>\<open>json.Unmarshal(params, &p)\<close>, \<open>None\<close> for its error. A lookup of an absent key in
  the Go map \<^verbatim>\<open>openDocs\<close> gives \<^verbatim>\<open>false\<close>.
\<close>

record FileChange =
  URI :: string
  Type :: int

record textDocument =
  uri :: string
  languageId :: string
  version :: int
  docText :: string

datatype lsp_params =
    DidOpenParams textDocument
  | DidCloseParams string
  | ChangesParams "FileChange list"
  | RawParams string
  | EmptyParams

record lsp_notification =
  n_method :: string
  n_params :: lsp_params

definition sendNotification ::
  "(lsp_notification \<Rightarrow> string option) \<Rightarrow> string \<Rightarrow> lsp_params \<Rightarrow> lsp_stdin
     \<Rightarrow> write_error option \<times> lsp_stdin" where
  "sendNotification marshal method params p =
     writeMessage (marshal \<lparr>n_method = method, n_params = params\<rparr>) p"

record doc_state =
  openDocs :: "string \<rightharpoonup> bool"
  stdin :: lsp_stdin

datatype doc_error = ParamsError | RefreshCloseFailed write_error | SendFailed write_error


definition handleDidClose ::
  "(lsp_notification \<Rightarrow> string option) \<Rightarrow> string option \<Rightarrow> doc_state
     \<Rightarrow> doc_error option \<times> doc_state" where
  "handleDidClose marshal p st =
     (case p of
        None \<Rightarrow> (Some ParamsError, st)
      | Some u \<Rightarrow>
          (let st1 = st\<lparr>openDocs := (openDocs st)(u := None)\<rparr>
           in case sendNotification marshal ''textDocument/didClose''
                     (DidCloseParams u) (stdin st1) of
                (e, pipe') \<Rightarrow> (map_option SendFailed e, st1\<lparr>stdin := pipe'\<rparr>)))"

text \<open>The bytes of one framed message.\<close>

definition frame :: "string \<Rightarrow> string" where
  "frame body = frameHeader (length body) @ body"

subsection \<open>The API router\<close>









subsection \<open>Starting the file watcher\<close>







subsection \<open>The polling watcher\<close>

text \<open>
  A snapshot is the Go map from paths to modification times, as the list of its
  entries; Go iterates a map in no fixed order, and the model iterates in list order.
  \<^verbatim>\<open>filepath.ToSlash\<close> is the identity where the separator is the slash. The scan of the
  file system is an input: \<open>newFiles\<close> is what \<^verbatim>\<open>pw.scan()\<close> returns. \<open>isIndexing\<close> is
  \<open>None\<close> for a nil \<^verbatim>\<open>isIndexingFunc\<close> and otherwise what the function returns;
  \<open>hasNotify\<close> says whether \<^verbatim>\<open>sendNotifyFunc\<close> is set. The first component of the result
  of \<^verbatim>\<open>checkForChanges\<close> is the list passed to \<^verbatim>\<open>sendNotifyFunc\<close>, if it was called.
  \<^verbatim>\<open>pollingTick\<close> is \<^verbatim>\<open>checkForChanges\<close> with the two functions \<^verbatim>\<open>startPollingWatcher\<close>
  installs: \<^verbatim>\<open>sm.IsIndexing\<close> and the closure that sends
  \<^verbatim>\<open>workspace/didChangeWatchedFiles\<close>. Of the fields of \<^verbatim>\<open>PollingWatcher\<close> the record
  keeps the two that change; the others are its configuration.
\<close>

type_synonym snapshot = "(string \<times> int64) list"

record PollingWatcher =
  fileMap :: snapshot
  running :: bool

definition pathToURI :: "string \<Rightarrow> string" where
  "pathToURI path = ''file://'' @ (if HasPrefix path ''/'' then path else ''/'' @ path)"

definition newAndChanged :: "snapshot \<Rightarrow> snapshot \<Rightarrow> FileChange list" where
  "newAndChanged oldFiles newFiles =
     concat (map (\<lambda>(path, newMtime).
        case map_of oldFiles path of
          None \<Rightarrow> [\<lparr>URI = pathToURI path, Type = 1\<rparr>]
        | Some oldMtime \<Rightarrow>
            if newMtime \<noteq> oldMtime then [\<lparr>URI = pathToURI path, Type = 2\<rparr>] else [])
       newFiles)"

definition deletedFiles :: "snapshot \<Rightarrow> snapshot \<Rightarrow> FileChange list" where
  "deletedFiles oldFiles newFiles =
     concat (map (\<lambda>(path, oldMtime).
        case map_of newFiles path of
          None \<Rightarrow> [\<lparr>URI = pathToURI path, Type = 3\<rparr>]
        | Some newMtime \<Rightarrow> [])
       oldFiles)"

definition detectChanges :: "snapshot \<Rightarrow> snapshot \<Rightarrow> FileChange list" where
  "detectChanges oldFiles newFiles =
     newAndChanged oldFiles newFiles @ deletedFiles oldFiles newFiles"

definition checkForChanges ::
  "snapshot \<Rightarrow> bool option \<Rightarrow> bool \<Rightarrow> PollingWatcher
     \<Rightarrow> FileChange list option \<times> PollingWatcher" where
  "checkForChanges newFiles isIndexing hasNotify pw =
     (let oldFiles = fileMap pw;
          pw' = pw\<lparr>fileMap := newFiles\<rparr>;
          changes = detectChanges oldFiles newFiles
      in if changes \<noteq> [] then
           (if isIndexing = Some True then (None, pw')
            else if hasNotify then (Some changes, pw')
            else (None, pw'))
         else (None, pw'))"

definition pollingTick ::
  "(lsp_notification \<Rightarrow> string option) \<Rightarrow> snapshot \<Rightarrow> progress
     \<Rightarrow> PollingWatcher \<times> lsp_stdin \<Rightarrow> PollingWatcher \<times> lsp_stdin" where
  "pollingTick marshal newFiles p w =
     (case checkForChanges newFiles (Some (indexingActive p)) True (fst w) of
        (None, pw') \<Rightarrow> (pw', snd w)
      | (Some changes, pw') \<Rightarrow>
          (pw', snd (sendNotification marshal ''workspace/didChangeWatchedFiles''
                       (ChangesParams changes) (snd w))))"

subsection \<open>Sample inputs\<close>

text \<open>
  Inputs for the instances in the second part: a stand-in for \<^verbatim>\<open>json.Marshal\<close> whose
  body is the method name, a backend whose forwarded requests run into their deadline,
  a request parser that takes a line as the method name, a document and initial states.
\<close>

definition sampleMarshal :: "lsp_notification \<Rightarrow> string option" where
  "sampleMarshal n = Some (n_method n)"





definition pipe0 :: lsp_stdin where
  "pipe0 = \<lparr>written = [], pipeClosed = False\<rparr>"

section \<open>Theorems\<close>

subsection \<open>Status derivation\<close>




subsection \<open>Helper facts on decimal parsing and words\<close>

lemma sint_word_of_int_64:
  "- (2 ^ 63) \<le> n \<Longrightarrow> n < 2 ^ 63 \<Longrightarrow> sint (word_of_int n :: int64) = n"
  by (simp add: int_word_sint)

lemma ParseInt_range:
  "ParseInt s = Some k \<Longrightarrow> - (2 ^ 63) \<le> k \<and> k < 2 ^ 63"
  by (auto simp: ParseInt_def split: list.splits if_splits option.splits)

subsection \<open>Helper facts on the framed codec\<close>


lemma digitChar_digit: "d < 10 \<Longrightarrow> isDigit (digitChar d) \<and> digitVal (digitChar d) = d"
proof -
  assume "d < 10"
  then have "d = 0 \<or> d = 1 \<or> d = 2 \<or> d = 3 \<or> d = 4 \<or> d = 5 \<or> d = 6
      \<or> d = 7 \<or> d = 8 \<or> d = 9"
    by presburger
  then show ?thesis
    by (elim disjE) (simp_all add: digitChar_def isDigit_def digitVal_def)
qed

lemma isDigit_not_space: "isDigit c \<Longrightarrow> \<not> isSpace c \<and> c \<noteq> CHR ''+'' \<and> c \<noteq> CHR ''-'' \<and> c \<noteq> CHR 0x0A"
  by (auto simp: isDigit_def isSpace_def)

lemma parseDigits_append:
  "parseDigits k (xs @ ys) =
     (case parseDigits k xs of None \<Rightarrow> None | Some m \<Rightarrow> parseDigits m ys)"
  by (induction xs arbitrary: k) auto

lemma parseDigits_decimal: "parseDigits 0 (decimal n) = Some n"
proof (induction n rule: decimal.induct)
  case (1 n)
  show ?case
  proof (cases "n < 10")
    case True
    then show ?thesis
      by (simp add: decimal.simps [of n] digitChar_digit)
  next
    case False
    have "n mod 10 < 10" by simp
    with False 1 show ?thesis
      by (simp add: decimal.simps [of n] parseDigits_append digitChar_digit)
  qed
qed

lemma decimal_digits: "c \<in> set (decimal n) \<Longrightarrow> isDigit c"
proof (induction n rule: decimal.induct)
  case (1 n)
  then show ?case
    by (cases "n < 10") (auto simp: decimal.simps [of n] digitChar_digit)
qed

lemma decimal_nonempty: "decimal n \<noteq> []"
  by (subst decimal.simps) simp

lemma Atoi_decimal: "int n < 2 ^ 63 \<Longrightarrow> Atoi (decimal n) = Some (int n)"
proof -
  assume r: "int n < 2 ^ 63"
  obtain c cs where d: "decimal n = c # cs"
    using decimal_nonempty [of n] by (cases "decimal n") auto
  then have "isDigit c"
    using decimal_digits [of c n] by simp
  then have "c \<noteq> CHR ''+''" "c \<noteq> CHR ''-''"
    using isDigit_not_space by blast+
  moreover have "ParseUint (decimal n) = Some n"
    by (simp add: ParseUint_def decimal_nonempty parseDigits_decimal)
  ultimately show ?thesis
    using r d by (simp add: Atoi_def ParseInt_def)
qed

lemma ReadString_line:
  "CHR 0x0A \<notin> set l \<Longrightarrow> ReadString (l @ CHR 0x0A # r) = Some (l @ [CHR 0x0A], r)"
  by (induction l) auto

lemma dropWhile_hd: "t \<noteq> [] \<Longrightarrow> \<not> P (hd t) \<Longrightarrow> dropWhile P t = t"
  by (cases t) auto

lemma TrimSpace_padded:
  assumes "t \<noteq> []" "\<not> isSpace (hd t)" "\<not> isSpace (last t)"
    and "\<forall>w \<in> set ws1. isSpace w" "\<forall>w \<in> set ws2. isSpace w"
  shows "TrimSpace (ws1 @ t @ ws2) = t"
proof -
  have "dropWhile isSpace (ws1 @ t @ ws2) = t @ ws2"
    using assms by (simp add: dropWhile_append2 dropWhile_hd)
  moreover have "dropWhile isSpace (rev ws2 @ rev t) = dropWhile isSpace (rev t)"
    using assms by (intro dropWhile_append2) simp
  moreover have "dropWhile isSpace (rev t) = rev t"
    using assms by (intro dropWhile_hd) (simp_all add: hd_rev)
  ultimately show ?thesis
    by (simp add: TrimSpace_def)
qed


lemma decimal_hd_last: "isDigit (hd (decimal n)) \<and> isDigit (last (decimal n))"
  using decimal_nonempty [of n] decimal_digits [of _ n] by simp

lemma readHeaders_frameHeader:
  assumes "int n < 2 ^ 63"
  shows "readHeaders c (frameHeader n @ r) = (Inr (int n), r)"
proof -
  let ?key = "''Content-Length: ''"
  let ?t = "?key @ decimal n"
  have nl: "CHR 0x0A \<notin> set (?t @ [CHR 0x0D])"
    using decimal_digits [of "CHR 0x0A" n] isDigit_not_space [of "CHR 0x0A"] by auto
  have split: "frameHeader n @ r = (?t @ [CHR 0x0D]) @ CHR 0x0A # (CRLF @ r)"
    by (simp add: frameHeader_def CRLF_def)
  have first: "ReadString (frameHeader n @ r) = Some ((?t @ [CHR 0x0D]) @ [CHR 0x0A], CRLF @ r)"
    unfolding split using nl by (rule ReadString_line)
  have "last ?t = last (decimal n)"
    using decimal_nonempty [of n] by simp
  then have "\<not> isSpace (last ?t)"
    using decimal_hd_last [of n] isDigit_not_space by simp
  then have "TrimSpace ([] @ ?t @ [CHR 0x0D, CHR 0x0A]) = ?t"
    by (intro TrimSpace_padded) (simp_all add: isSpace_def)
  then have line: "TrimSpace ((?t @ [CHR 0x0D]) @ [CHR 0x0A]) = ?t"
    by simp
  have pre: "HasPrefix ?t ''Content-Length:''"
    by (simp add: HasPrefix_def)
  have "TrimSpace ('' '' @ decimal n @ []) = decimal n"
    using decimal_nonempty [of n] decimal_hd_last [of n] isDigit_not_space
    by (intro TrimSpace_padded) (simp_all add: isSpace_def)
  then have num: "TrimSpace (TrimPrefix ?t ''Content-Length:'') = decimal n"
    using pre by (simp add: TrimPrefix_def)
  have second: "readHeaders (int n) (CRLF @ r) = (Inr (int n), r)"
    by (subst readHeaders.simps) (simp add: CRLF_def TrimSpace_def isSpace_def)
  show ?thesis
    by (subst readHeaders.simps)
      (simp add: first line pre num Atoi_decimal [OF assms] second del: append_assoc append.simps)
qed

lemma readLSPMessage_frame:
  assumes "body \<noteq> []" "int (length body) < 2 ^ 63"
  shows "readLSPMessage (frameHeader (length body) @ body @ rest) = (Inr body, rest)"
  using assms
  by (simp add: readLSPMessage_def readHeaders_frameHeader ReadFull_def)







subsection \<open>Id codec\<close>

text \<open>
  C4 (as the code has it). Parsing an id from the zero value and serializing it again
  gives back: the same number for an integer literal in the range of \<^verbatim>\<open>int64\<close>; the
  same string for a string that is not a decimal integer (such as \<open>"abc"\<close>); \<open>null\<close>
  for \<open>null\<close>, and also \<open>null\<close> for an absent id (the zero value). A string that
  parses as a decimal \<^verbatim>\<open>int64\<close> (such as \<open>"42"\<close>) comes back as the JSON number of
  that value, not as a string.
\<close>

theorem id_parse_then_serialize:
  "parse_then_serialize (JInt n) =
     (if - (2 ^ 63) \<le> n \<and> n < 2 ^ 63 then Inr (JInt n) else Inl BadID)
   \<and> parse_then_serialize (JString s) =
     (case ParseInt s of None \<Rightarrow> Inr (JString s) | Some k \<Rightarrow> Inr (JInt k))
   \<and> parse_then_serialize JNull = Inr JNull
   \<and> MarshalJSON zeroID = JNull"
  by (auto simp: parse_then_serialize_def UnmarshalJSON_def MarshalJSON_def zeroID_def
      sint_word_of_int_64 dest: ParseInt_range split: option.splits)

text \<open>The ids \<open>42\<close>, \<open>"abc"\<close> and \<open>"42"\<close>.\<close>

theorem id_parse_then_serialize_witness:
  "parse_then_serialize (JInt 42) = Inr (JInt 42)
   \<and> parse_then_serialize (JString ''abc'') = Inr (JString ''abc'')
   \<and> parse_then_serialize (JString ''42'') = Inr (JInt 42)
   \<and> parse_then_serialize JNull = Inr JNull
   \<and> MarshalJSON zeroID = JNull"
  using id_parse_then_serialize [of 42 "''abc''"] id_parse_then_serialize [of 42 "''42''"]
  by (simp add: ParseInt_def ParseUint_def isDigit_def digitVal_def)

text \<open>
  The claim as written fails at the id \<open>"42"\<close>: the string is re-emitted as the number
  \<open>42\<close>, so the wire shape is not preserved.
\<close>

theorem id_string_shape_counterexample:
  "parse_then_serialize (JString ''42'') = Inr (JInt 42)
   \<and> parse_then_serialize (JString ''42'') \<noteq> Inr (JString ''42'')"
  by (simp add: parse_then_serialize_def UnmarshalJSON_def MarshalJSON_def zeroID_def
      ParseInt_def ParseUint_def isDigit_def digitVal_def)

subsection \<open>Framed codec\<close>


text \<open>
  C9. Write, then read: for a body that is not empty (a JSON text never is) and shorter
  than \<open>2^63\<close> bytes, \<^verbatim>\<open>writeMessage\<close> on an open pipe succeeds and appends the header
  line \<^verbatim>\<open>Content-Length: N\<close>, a blank line and exactly the body; \<^verbatim>\<open>readLSPMessage\<close> on
  the appended bytes, whatever follows them, returns exactly that body and leaves what
  follows unread. The bound covers bodies of 16 MiB and beyond.
\<close>

theorem framed_codec_roundtrip:
  assumes "body \<noteq> []" and "int (length body) < 2 ^ 63" and "\<not> pipeClosed p"
  shows "fst (writeMessage (Some body) p) = None
     \<and> written (snd (writeMessage (Some body) p))
         = written p @ frameHeader (length body) @ body
     \<and> readLSPMessage
         (drop (length (written p)) (written (snd (writeMessage (Some body) p))) @ rest)
         = (Inr body, rest)"
  using assms
  by (simp add: writeMessage_def Write_def readLSPMessage_frame)

text \<open>The body \<open>{}\<close> after earlier output, and a body of exactly 16 MiB.\<close>

theorem framed_codec_roundtrip_witness:
  "readLSPMessage (drop (length (written \<lparr>written = ''x'', pipeClosed = False\<rparr>))
       (written (snd (writeMessage (Some ''{}'') \<lparr>written = ''x'', pipeClosed = False\<rparr>)))
       @ ''rest'')
     = (Inr ''{}'', ''rest'')
   \<and> readLSPMessage (drop (length (written \<lparr>written = [], pipeClosed = False\<rparr>))
       (written (snd (writeMessage (Some (replicate 16777216 (CHR ''a'')))
          \<lparr>written = [], pipeClosed = False\<rparr>))) @ [])
     = (Inr (replicate 16777216 (CHR ''a'')), [])"
proof -
  have small: "''{}'' \<noteq> []" "int (length ''{}'') < 2 ^ 63"
    and big: "replicate 16777216 (CHR ''a'') \<noteq> []"
      "int (length (replicate 16777216 (CHR ''a''))) < 2 ^ 63"
    and "open": "\<not> pipeClosed \<lparr>written = ''x'', pipeClosed = False\<rparr>"
      "\<not> pipeClosed \<lparr>written = [], pipeClosed = False\<rparr>"
    by simp_all
  from framed_codec_roundtrip [OF small "open"(1), of "''rest''"]
    framed_codec_roundtrip [OF big "open"(2), of "[]"]
  show ?thesis
    by blast
qed

subsection \<open>Protocol failures in the reader loop\<close>




subsection \<open>Helper facts on the request registry\<close>

lemma id_of_inj:
  "a < 2 ^ 64 - 1 \<Longrightarrow> b < 2 ^ 64 - 1 \<Longrightarrow> id_of a = id_of b \<Longrightarrow> a = b"
  unfolding id_of_def
  by (simp add: word_of_nat_eq_iff take_bit_nat_eq_self del: of_nat_Suc)

lemma id_of_nonzero: "a < 2 ^ 64 - 1 \<Longrightarrow> id_of a \<noteq> 0"
  unfolding id_of_def
  by (simp add: word_of_nat_eq_0_iff del: of_nat_Suc) (auto dest: dvd_imp_le)

lemma id_of_next: "requestID s = of_nat (ncalls s) \<Longrightarrow> requestID s + 1 = id_of (ncalls s)"
  by (simp add: id_of_def)

lemma reg_inv0: "reg_inv registry0"
  by (simp add: reg_inv_def registry0_def)

lemma reg_inv_counter: "reg_inv s \<Longrightarrow> requestID s = of_nat (ncalls s)"
  by (simp add: reg_inv_def)

lemma reg_inv_pending:
  "reg_inv s \<Longrightarrow> pending s i = Some ch \<Longrightarrow>
   ch < ncalls s \<and> i = id_of ch \<and> (\<exists>c. calls s ch = Some c \<and> \<not> returned c)"
  unfolding reg_inv_def by blast

lemma reg_inv_calls:
  "reg_inv s \<Longrightarrow> calls s ch = Some c \<Longrightarrow> ch < ncalls s \<and> call_id c = id_of ch"
  unfolding reg_inv_def by blast

lemma reg_inv_entry:
  "reg_inv s \<Longrightarrow> calls s ch = Some c \<Longrightarrow> \<not> returned c \<Longrightarrow> pending s (id_of ch) = Some ch"
  unfolding reg_inv_def by blast

lemma reg_invI:
  assumes "requestID s = of_nat (ncalls s)"
    and "\<And>i ch. pending s i = Some ch \<Longrightarrow>
          ch < ncalls s \<and> i = id_of ch \<and> (\<exists>c. calls s ch = Some c \<and> \<not> returned c)"
    and "\<And>ch c. calls s ch = Some c \<Longrightarrow> ch < ncalls s \<and> call_id c = id_of ch"
    and "\<And>ch c. calls s ch = Some c \<Longrightarrow> \<not> returned c \<Longrightarrow> pending s (id_of ch) = Some ch"
  shows "reg_inv s"
  unfolding reg_inv_def using assms by blast

lemma unblock_fields:
  "calls (unblock ch s) = calls s" "pending (unblock ch s) = pending s"
  "ncalls (unblock ch s) = ncalls s" "requestID (unblock ch s) = requestID s"
  by (simp_all add: unblock_def split: option.splits prod.splits)

lemma step_ncalls: "step e s = Some s' \<Longrightarrow> ncalls s \<le> ncalls s'"
  by (cases e)
    (auto simp: Let_def unblock_fields split: if_splits option.splits call.splits)

lemma run_ncalls: "run s evs = Some s' \<Longrightarrow> ncalls s \<le> ncalls s'"
proof (induction evs arbitrary: s)
  case Nil
  then show ?case by simp
next
  case (Cons e evs)
  then obtain s1 where "step e s = Some s1" "run s1 evs = Some s'"
    by (auto split: option.splits)
  with Cons.IH [of s1] step_ncalls [of e s s1] show ?case
    by simp
qed

lemma reg_inv_move:
  assumes inv: "reg_inv s" and c: "calls s ch = Some c"
    and c': "call_id c' = call_id c" "\<not> returned c" "\<not> returned c'"
  shows "reg_inv (s\<lparr>calls := (calls s)(ch \<mapsto> c')\<rparr>)"
proof (rule reg_invI)
  show "requestID (s\<lparr>calls := (calls s)(ch \<mapsto> c')\<rparr>)
      = of_nat (ncalls (s\<lparr>calls := (calls s)(ch \<mapsto> c')\<rparr>))"
    using reg_inv_counter [OF inv] by simp
next
  fix i k
  assume "pending (s\<lparr>calls := (calls s)(ch \<mapsto> c')\<rparr>) i = Some k"
  then have "pending s i = Some k" by simp
  from reg_inv_pending [OF inv this] c'(3)
  show "k < ncalls (s\<lparr>calls := (calls s)(ch \<mapsto> c')\<rparr>) \<and> i = id_of k
      \<and> (\<exists>d. calls (s\<lparr>calls := (calls s)(ch \<mapsto> c')\<rparr>) k = Some d \<and> \<not> returned d)"
    by auto
next
  fix k d
  assume "calls (s\<lparr>calls := (calls s)(ch \<mapsto> c')\<rparr>) k = Some d"
  then consider "k = ch" "d = c'" | "k \<noteq> ch" "calls s k = Some d"
    by (auto split: if_splits)
  then show "k < ncalls (s\<lparr>calls := (calls s)(ch \<mapsto> c')\<rparr>) \<and> call_id d = id_of k"
    using reg_inv_calls [OF inv c] c'(1) reg_inv_calls [OF inv, of k d]
    by cases auto
next
  fix k d
  assume "calls (s\<lparr>calls := (calls s)(ch \<mapsto> c')\<rparr>) k = Some d" "\<not> returned d"
  then consider "k = ch" | "k \<noteq> ch" "calls s k = Some d" "\<not> returned d"
    by (auto split: if_splits)
  then show "pending (s\<lparr>calls := (calls s)(ch \<mapsto> c')\<rparr>) (id_of k) = Some k"
    using reg_inv_entry [OF inv c c'(2)] reg_inv_entry [OF inv, of k d]
    by cases auto
qed

lemma reg_inv_buffer: "reg_inv (s\<lparr>buffer := b\<rparr>) = reg_inv s"
  by (simp add: reg_inv_def)

lemma reg_inv_blocked: "reg_inv (s\<lparr>blocked := bl\<rparr>) = reg_inv s"
  by (simp add: reg_inv_def)

lemma reg_inv_unblock: "reg_inv (unblock ch s) = reg_inv s"
  by (simp add: unblock_def reg_inv_def split: option.splits prod.splits)

lemma reg_inv_Call:
  assumes inv: "reg_inv s" and n: "Suc (ncalls s) < 2 ^ 64"
  shows "reg_inv (s\<lparr>requestID := requestID s + 1,
      pending := (pending s)(requestID s + 1 \<mapsto> ncalls s),
      calls := (calls s)(ncalls s \<mapsto> Allocated (requestID s + 1)),
      ncalls := Suc (ncalls s)\<rparr>)" (is "reg_inv ?s'")
proof -
  have next_id: "requestID s + 1 = id_of (ncalls s)"
    using reg_inv_counter [OF inv] by (rule id_of_next)
  have fresh: "id_of k \<noteq> id_of (ncalls s)" if "k < ncalls s" for k
    using that n id_of_inj [of k "ncalls s"] by auto
  show ?thesis
  proof (rule reg_invI)
    show "requestID ?s' = of_nat (ncalls ?s')"
      using reg_inv_counter [OF inv] by simp
  next
    fix i k
    assume "pending ?s' i = Some k"
    then consider "i = id_of (ncalls s)" "k = ncalls s"
      | "i \<noteq> id_of (ncalls s)" "pending s i = Some k"
      by (auto simp: next_id split: if_splits)
    then show "k < ncalls ?s' \<and> i = id_of k \<and> (\<exists>c. calls ?s' k = Some c \<and> \<not> returned c)"
    proof cases
      case 1
      then show ?thesis by simp
    next
      case 2
      from reg_inv_pending [OF inv 2(2)] show ?thesis by auto
    qed
  next
    fix k d
    assume "calls ?s' k = Some d"
    then consider "k = ncalls s" "d = Allocated (requestID s + 1)"
      | "k \<noteq> ncalls s" "calls s k = Some d"
      by (auto split: if_splits)
    then show "k < ncalls ?s' \<and> call_id d = id_of k"
      using reg_inv_calls [OF inv, of k d] by cases (auto simp: next_id)
  next
    fix k d
    assume "calls ?s' k = Some d" "\<not> returned d"
    then consider "k = ncalls s"
      | "k \<noteq> ncalls s" "calls s k = Some d" "\<not> returned d"
      by (auto split: if_splits)
    then show "pending ?s' (id_of k) = Some k"
    proof cases
      case 1
      then show ?thesis by (simp add: next_id)
    next
      case 2
      from reg_inv_calls [OF inv 2(2)] have "k < ncalls s" by simp
      from fresh [OF this] reg_inv_entry [OF inv 2(2) 2(3)] show ?thesis
        by (simp add: next_id)
    qed
  qed
qed

lemma reg_inv_Cleanup:
  assumes inv: "reg_inv s" and c: "calls s ch = Some (Leaving i out)"
    and n: "ncalls s < 2 ^ 64"
  shows "reg_inv (s\<lparr>pending := (pending s)(i := None),
      calls := (calls s)(ch \<mapsto> Returned i out)\<rparr>)" (is "reg_inv ?s'")
proof -
  from reg_inv_calls [OF inv c] have ch: "ch < ncalls s" and i: "i = id_of ch"
    by simp_all
  have other: "id_of k \<noteq> i" if "k < ncalls s" "k \<noteq> ch" for k
    using that ch n id_of_inj [of k ch] by (auto simp: i)
  show ?thesis
  proof (rule reg_invI)
    show "requestID ?s' = of_nat (ncalls ?s')"
      using reg_inv_counter [OF inv] by simp
  next
    fix j k
    assume "pending ?s' j = Some k"
    then have j: "j \<noteq> i" "pending s j = Some k"
      by (auto split: if_splits)
    from reg_inv_pending [OF inv j(2)] j(1) i have "k \<noteq> ch"
      by auto
    with reg_inv_pending [OF inv j(2)]
    show "k < ncalls ?s' \<and> j = id_of k \<and> (\<exists>c. calls ?s' k = Some c \<and> \<not> returned c)"
      by auto
  next
    fix k d
    assume "calls ?s' k = Some d"
    then consider "k = ch" "d = Returned i out" | "k \<noteq> ch" "calls s k = Some d"
      by (auto split: if_splits)
    then show "k < ncalls ?s' \<and> call_id d = id_of k"
      using reg_inv_calls [OF inv, of k d] ch i by cases auto
  next
    fix k d
    assume "calls ?s' k = Some d" "\<not> returned d"
    then have k: "k \<noteq> ch" "calls s k = Some d" "\<not> returned d"
      by (auto split: if_splits)
    from reg_inv_calls [OF inv k(2)] have "k < ncalls s" by simp
    from other [OF this k(1)] reg_inv_entry [OF inv k(2) k(3)]
    show "pending ?s' (id_of k) = Some k"
      by simp
  qed
qed

lemma step_inv:
  assumes "reg_inv s" "step e s = Some s'" "ncalls s' < 2 ^ 64"
  shows "reg_inv s'"
proof (cases e)
  case Call
  with assms(2) have s': "s' = s\<lparr>requestID := requestID s + 1,
      pending := (pending s)(requestID s + 1 \<mapsto> ncalls s),
      calls := (calls s)(ncalls s \<mapsto> Allocated (requestID s + 1)), ncalls := Suc (ncalls s)\<rparr>"
    by (auto simp: Let_def split: if_splits)
  with assms(3) have "Suc (ncalls s) < 2 ^ 64"
    by simp
  with assms(1) show ?thesis
    unfolding s' by (rule reg_inv_Call)
next
  case (WriteOk ch)
  with assms(2) obtain i where "calls s ch = Some (Allocated i)"
    and "s' = s\<lparr>calls := (calls s)(ch \<mapsto> Selecting i)\<rparr>"
    by (auto split: option.splits call.splits)
  with assms(1) show ?thesis
    using reg_inv_move [of s ch "Allocated i" "Selecting i"] by simp
next
  case (WriteFail ch)
  with assms(2) obtain i where "calls s ch = Some (Allocated i)"
    and "s' = s\<lparr>calls := (calls s)(ch \<mapsto> Leaving i WriteFailed)\<rparr>"
    by (auto split: option.splits call.splits)
  with assms(1) show ?thesis
    using reg_inv_move [of s ch "Allocated i" "Leaving i WriteFailed"] by simp
next
  case (Receive ch)
  with assms(2) obtain i resp where "calls s ch = Some (Selecting i)"
    and "s' = unblock ch (s\<lparr>calls := (calls s)(ch \<mapsto> Leaving i (Got resp)),
        buffer := (buffer s)(ch := None)\<rparr>)"
    by (auto split: option.splits call.splits)
  with assms(1) show ?thesis
    using reg_inv_move [of s ch "Selecting i" "Leaving i (Got resp)"]
    by (simp add: reg_inv_unblock reg_inv_buffer)
next
  case (Expire ch)
  with assms(2) obtain i where "calls s ch = Some (Selecting i)"
    and "s' = s\<lparr>calls := (calls s)(ch \<mapsto> Leaving i DeadlineExceeded)\<rparr>"
    by (auto split: option.splits call.splits)
  with assms(1) show ?thesis
    using reg_inv_move [of s ch "Selecting i" "Leaving i DeadlineExceeded"] by simp
next
  case (Cleanup ch)
  with assms(2) obtain i out where c: "calls s ch = Some (Leaving i out)"
    and s': "s' = s\<lparr>pending := (pending s)(i := None),
        calls := (calls s)(ch \<mapsto> Returned i out)\<rparr>"
    by (auto split: option.splits call.splits if_splits)
  from assms(3) have "ncalls s < 2 ^ 64"
    by (simp add: s')
  with assms(1) c show ?thesis
    unfolding s' by (rule reg_inv_Cleanup)
next
  case (Response k resp)
  with assms(2) consider "s' = s" | b where "s' = s\<lparr>buffer := b\<rparr>"
    | bl where "s' = s\<lparr>blocked := bl\<rparr>"
    by (auto split: option.splits if_splits)
  then show ?thesis
    using assms(1) by cases (simp_all add: reg_inv_buffer reg_inv_blocked)
qed

lemma run_inv:
  "reg_inv s \<Longrightarrow> run s evs = Some s' \<Longrightarrow> ncalls s' < 2 ^ 64 \<Longrightarrow> reg_inv s'"
proof (induction evs arbitrary: s)
  case Nil
  then show ?case by simp
next
  case (Cons e evs)
  then obtain s1 where s1: "step e s = Some s1" "run s1 evs = Some s'"
    by (auto split: option.splits)
  then have "ncalls s1 < 2 ^ 64"
    using run_ncalls [of s1 evs s'] Cons.prems(3) by simp
  with Cons s1 show ?case
    by (blast intro: step_inv)
qed


lemma run_registry0_inv:
  "run registry0 evs = Some s \<Longrightarrow> ncalls s < 2 ^ 64 \<Longrightarrow> reg_inv s"
  using reg_inv0 by (rule run_inv)

lemma left_select_step:
  assumes "reg_inv s" "step e s = Some s'" "calls s ch = Some c" "left_select c"
  shows "\<exists>c'. calls s' ch = Some c' \<and> left_select c'"
proof (cases e)
  case Call
  from reg_inv_calls [OF assms(1,3)] have "ch \<noteq> ncalls s" by simp
  with Call assms(2-4) show ?thesis
    by (auto simp: Let_def split: if_splits)
next
  case (WriteOk k)
  with assms(2-4) show ?thesis
    by (cases "k = ch") (auto split: option.splits call.splits)
next
  case (WriteFail k)
  with assms(2-4) show ?thesis
    by (cases "k = ch") (auto split: option.splits call.splits)
next
  case (Receive k)
  with assms(2-4) show ?thesis
    by (cases "k = ch") (auto simp: unblock_fields split: option.splits call.splits)
next
  case (Expire k)
  with assms(2-4) show ?thesis
    by (cases "k = ch") (auto split: option.splits call.splits)
next
  case (Cleanup k)
  with assms(2-4) show ?thesis
    by (cases "k = ch") (auto split: option.splits call.splits if_splits)
next
  case (Response k resp)
  with assms(2-4) show ?thesis
    by (auto split: option.splits if_splits)
qed

lemma no_receive_after_select:
  assumes "reg_inv s" "run s evs = Some s'" "ncalls s' < 2 ^ 64"
    and "calls s ch = Some c" "left_select c"
  shows "count_list evs (Receive ch) = 0"
  using assms
proof (induction evs arbitrary: s c)
  case Nil
  then show ?case by simp
next
  case (Cons e evs)
  then obtain s1 where s1: "step e s = Some s1" "run s1 evs = Some s'"
    by (auto split: option.splits)
  have n1: "ncalls s1 < 2 ^ 64"
    using run_ncalls [OF s1(2)] Cons.prems(3) by simp
  have inv1: "reg_inv s1"
    using Cons.prems(1) s1(1) n1 by (rule step_inv)
  from left_select_step [OF Cons.prems(1) s1(1) Cons.prems(4,5)]
  obtain c1 where c1: "calls s1 ch = Some c1" "left_select c1"
    by blast
  have "e \<noteq> Receive ch"
    using s1(1) Cons.prems(4,5) by (auto split: option.splits call.splits)
  with Cons.IH [OF inv1 s1(2) Cons.prems(3) c1] show ?case
    by simp
qed

lemma receive_at_most_once:
  assumes "reg_inv s" "run s evs = Some s'" "ncalls s' < 2 ^ 64"
  shows "count_list evs (Receive ch) \<le> 1"
  using assms
proof (induction evs arbitrary: s)
  case Nil
  then show ?case by simp
next
  case (Cons e evs)
  then obtain s1 where s1: "step e s = Some s1" "run s1 evs = Some s'"
    by (auto split: option.splits)
  have n1: "ncalls s1 < 2 ^ 64"
    using run_ncalls [OF s1(2)] Cons.prems(3) by simp
  have inv1: "reg_inv s1"
    using Cons.prems(1) s1(1) n1 by (rule step_inv)
  show ?case
  proof (cases "e = Receive ch")
    case True
    with s1(1) obtain i resp where "calls s1 ch = Some (Leaving i (Got resp))"
      by (auto simp: unblock_fields split: option.splits call.splits)
    then have "count_list evs (Receive ch) = 0"
      using no_receive_after_select [OF inv1 s1(2) Cons.prems(3)] by simp
    with True show ?thesis by simp
  next
    case False
    with Cons.IH [OF inv1 s1(2) Cons.prems(3)] show ?thesis
      by simp
  qed
qed

lemma returned_entry_removed:
  assumes inv: "reg_inv s" and n: "ncalls s < 2 ^ 64"
    and c: "calls s ch = Some (Returned i out)"
  shows "pending s i = None"
proof (rule ccontr)
  assume "pending s i \<noteq> None"
  then obtain k where k: "pending s i = Some k"
    by auto
  from reg_inv_pending [OF inv k] obtain d where
    d: "k < ncalls s" "i = id_of k" "calls s k = Some d" "\<not> returned d"
    by auto
  from reg_inv_calls [OF inv c] have "ch < ncalls s" "i = id_of ch"
    by simp_all
  with d n have "k = ch"
    using id_of_inj [of k ch] by auto
  with c d show False
    by auto
qed

lemma zero_not_pending:
  assumes inv: "reg_inv s" and n: "ncalls s < 2 ^ 64"
  shows "pending s 0 = None"
proof (rule ccontr)
  assume "pending s 0 \<noteq> None"
  then obtain k where k: "pending s 0 = Some k"
    by auto
  from reg_inv_pending [OF inv k] have "k < ncalls s" "0 = id_of k"
    by auto
  with n id_of_nonzero [of k] show False
    by auto
qed

lemma run_append:
  "run s (evs @ [e]) = (case run s evs of None \<Rightarrow> None | Some s1 \<Rightarrow> step e s1)"
  by (induction evs arbitrary: s) (auto split: option.splits)

lemma sent_inv_step:
  assumes inv: "reg_inv s" and sent: "sent_inv evs s" and st: "step e s = Some s'"
  shows "sent_inv (evs @ [e]) s'"
proof -
  from sent have b: "\<And>ch resp. buffer s ch = Some resp \<Longrightarrow> Response (id_of ch) resp \<in> set evs"
    and bl: "\<And>ch resp. blocked s = Some (ch, resp) \<Longrightarrow> Response (id_of ch) resp \<in> set evs"
    and g: "\<And>ch c resp. calls s ch = Some c \<Longrightarrow> got c = Some resp \<Longrightarrow>
              Response (call_id c) resp \<in> set evs"
    unfolding sent_inv_def by blast+
  show ?thesis
  proof (cases e)
    case Call
    with st have s': "s' = s\<lparr>requestID := requestID s + 1,
        pending := (pending s)(requestID s + 1 \<mapsto> ncalls s),
        calls := (calls s)(ncalls s \<mapsto> Allocated (requestID s + 1)),
        ncalls := Suc (ncalls s)\<rparr>"
      by (auto simp: Let_def split: if_splits)
    show ?thesis
      unfolding sent_inv_def s' using b bl g
      by (auto simp: got_def split: if_splits)
  next
    case (WriteOk k)
    with st obtain i where "calls s k = Some (Allocated i)"
      and s': "s' = s\<lparr>calls := (calls s)(k \<mapsto> Selecting i)\<rparr>"
      by (auto split: option.splits call.splits)
    show ?thesis
      unfolding sent_inv_def s' using b bl g
      by (auto simp: got_def split: if_splits)
  next
    case (WriteFail k)
    with st obtain i where "calls s k = Some (Allocated i)"
      and s': "s' = s\<lparr>calls := (calls s)(k \<mapsto> Leaving i WriteFailed)\<rparr>"
      by (auto split: option.splits call.splits)
    show ?thesis
      unfolding sent_inv_def s' using b bl g
      by (auto simp: got_def split: if_splits)
  next
    case (Expire k)
    with st obtain i where "calls s k = Some (Selecting i)"
      and s': "s' = s\<lparr>calls := (calls s)(k \<mapsto> Leaving i DeadlineExceeded)\<rparr>"
      by (auto split: option.splits call.splits)
    show ?thesis
      unfolding sent_inv_def s' using b bl g
      by (auto simp: got_def split: if_splits)
  next
    case (Cleanup k)
    with st obtain i out where c: "calls s k = Some (Leaving i out)"
      and s': "s' = s\<lparr>pending := (pending s)(i := None),
          calls := (calls s)(k \<mapsto> Returned i out)\<rparr>"
      by (auto split: option.splits call.splits if_splits)
    have "Response i resp \<in> set evs" if "got (Returned i out) = Some resp" for resp
      using g [OF c, of resp] that by (cases out) (auto simp: got_def)
    then show ?thesis
      unfolding sent_inv_def s' using b bl g
      by (auto split: if_splits)
  next
    case (Receive k)
    with st obtain i resp where c: "calls s k = Some (Selecting i)"
      and r: "buffer s k = Some resp"
      and s': "s' = unblock k (s\<lparr>calls := (calls s)(k \<mapsto> Leaving i (Got resp)),
          buffer := (buffer s)(k := None)\<rparr>)"
      by (auto split: option.splits call.splits)
    from reg_inv_calls [OF inv c] have i: "i = id_of k"
      by simp
    from b [OF r] i have here: "Response i resp \<in> set evs"
      by simp
    show ?thesis
      unfolding sent_inv_def s' unblock_def using b bl g here
      by (auto simp: got_def split: if_splits option.splits prod.splits)
  next
    case (Response k resp)
    show ?thesis
    proof (cases "pending s k")
      case None
      with st Response have "s' = s"
        by (auto split: if_splits)
      then show ?thesis
        unfolding sent_inv_def using b bl g by auto
    next
      case (Some ch)
      from reg_inv_pending [OF inv Some] have k: "k = id_of ch"
        by simp
      from st Response Some consider "s' = s\<lparr>buffer := (buffer s)(ch \<mapsto> resp)\<rparr>"
        | "s' = s\<lparr>blocked := Some (ch, resp)\<rparr>"
        by (auto split: if_splits option.splits)
      then show ?thesis
      proof cases
        case 1
        show ?thesis
          unfolding sent_inv_def 1 using b bl g Response k
          by (auto split: if_splits)
      next
        case 2
        show ?thesis
          unfolding sent_inv_def 2 using b bl g Response k
          by (auto split: if_splits)
      qed
    qed
  qed
qed

lemma run_sent_inv:
  "run registry0 evs = Some s \<Longrightarrow> ncalls s < 2 ^ 64 \<Longrightarrow> sent_inv evs s"
proof (induction evs arbitrary: s rule: rev_induct)
  case Nil
  then have "s = registry0"
    by simp
  then show ?case
    by (simp add: sent_inv_def registry0_def)
next
  case (snoc e evs)
  from snoc.prems(1) obtain s1 where s1: "run registry0 evs = Some s1" "step e s1 = Some s"
    by (auto simp: run_append split: option.splits)
  from step_ncalls [OF s1(2)] snoc.prems(2) have n1: "ncalls s1 < 2 ^ 64"
    by simp
  have "reg_inv s1"
    using s1(1) n1 by (rule run_registry0_inv)
  moreover have "sent_inv evs s1"
    using s1(1) n1 by (rule snoc.IH)
  ultimately show ?case
    using s1(2) by (rule sent_inv_step)
qed

lemma got_was_sent:
  assumes "run registry0 evs = Some s" "ncalls s < 2 ^ 64"
    and "calls s ch = Some (Leaving i (Got resp)) \<or> calls s ch = Some (Returned i (Got resp))"
  shows "Response i resp \<in> set evs"
proof -
  from run_sent_inv [OF assms(1,2)]
  have "\<And>c. calls s ch = Some c \<Longrightarrow> got c = Some resp \<Longrightarrow> Response (call_id c) resp \<in> set evs"
    unfolding sent_inv_def by blast
  with assms(3) show ?thesis
    by (auto simp: got_def)
qed

subsection \<open>Request registry\<close>

lemmas eval_registry = registry0_def Let_def unblock_def

text \<open>
  C2 (as the code has it). In every execution from the initial registry with fewer than
  \<open>2^64\<close> calls (the counter has not wrapped): no two calls share an id; a pending entry
  leads to the one call that allocated its id, and that call has not returned; once a
  call has returned, with a response, after its deadline or after a write error, its
  entry is gone; a call takes a response from its channel at most once, and the response
  it takes is one the reader handled under the id of that call. A response
  that arrives after the call has returned finds no entry and is discarded: the state is
  unchanged. One that arrives after the deadline but before the deferred delete is put
  into the channel's buffer, where nobody reads it, provided the buffer is empty. (The
  reader's send is a plain send: with an earlier response still in the buffer it blocks.)
\<close>

theorem sendRequest_registry:
  assumes "run registry0 evs = Some s" and "ncalls s < 2 ^ 64"
  shows "(calls s ch = Some c \<and> calls s ch' = Some c' \<and> call_id c = call_id c' \<longrightarrow> ch = ch')
     \<and> (pending s i = Some ch \<longrightarrow> (\<exists>d. calls s ch = Some d \<and> call_id d = i \<and> \<not> returned d))
     \<and> (calls s ch = Some (Returned i out) \<longrightarrow> pending s i = None)
     \<and> count_list evs (Receive ch) \<le> 1
     \<and> (calls s ch = Some (Leaving i (Got resp')) \<or> calls s ch = Some (Returned i (Got resp'))
          \<longrightarrow> Response i resp' \<in> set evs)
     \<and> (blocked s = None \<and> calls s ch = Some (Returned i out) \<longrightarrow>
          step (Response i resp) s = Some s)
     \<and> (blocked s = None \<and> calls s ch = Some (Leaving i out) \<and> buffer s ch = None \<longrightarrow>
          step (Response i resp) s = Some (s\<lparr>buffer := (buffer s)(ch \<mapsto> resp)\<rparr>))"
proof -
  have inv: "reg_inv s"
    using assms by (rule run_registry0_inv)
  have unique: "ch = ch'"
    if "calls s ch = Some c \<and> calls s ch' = Some c' \<and> call_id c = call_id c'"
  proof -
    from that reg_inv_calls [OF inv, of ch c] reg_inv_calls [OF inv, of ch' c']
    have "ch < ncalls s" "ch' < ncalls s" "id_of ch = id_of ch'"
      by auto
    with assms(2) show ?thesis
      using id_of_inj [of ch ch'] by auto
  qed
  have owner: "\<exists>d. calls s ch = Some d \<and> call_id d = i \<and> \<not> returned d"
    if "pending s i = Some ch"
    using reg_inv_pending [OF inv that] reg_inv_calls [OF inv, of ch] by auto
  have removed: "pending s i = None" if "calls s ch = Some (Returned i out)"
    using inv assms(2) that by (rule returned_entry_removed)
  have once: "count_list evs (Receive ch) \<le> 1"
    using reg_inv0 assms by (rule receive_at_most_once)
  have own: "Response i resp' \<in> set evs"
    if "calls s ch = Some (Leaving i (Got resp')) \<or> calls s ch = Some (Returned i (Got resp'))"
    using assms that by (rule got_was_sent)
  have late: "step (Response i resp) s = Some s"
    if "blocked s = None \<and> calls s ch = Some (Returned i out)"
    using that removed by simp
  have parked: "step (Response i resp) s = Some (s\<lparr>buffer := (buffer s)(ch \<mapsto> resp)\<rparr>)"
    if "blocked s = None \<and> calls s ch = Some (Leaving i out) \<and> buffer s ch = None"
  proof -
    from that reg_inv_calls [OF inv, of ch "Leaving i out"]
      reg_inv_entry [OF inv, of ch "Leaving i out"]
    have "pending s i = Some ch"
      by auto
    with that show ?thesis by simp
  qed
  from unique owner removed once own late parked show ?thesis
    by blast
qed

text \<open>
  Two requests: the first times out and returns, the second is answered. A late answer
  to the first changes nothing.
\<close>

theorem sendRequest_registry_witness:
  "run registry0 [Call, WriteOk 0, Expire 0, Cleanup 0, Call, WriteOk 1,
       Response 2 \<lparr>Result = ''{}'', Err = None\<rparr>, Receive 1, Cleanup 1] \<noteq> None
   \<and> pending (the (run registry0 [Call, WriteOk 0, Expire 0, Cleanup 0, Call, WriteOk 1,
       Response 2 \<lparr>Result = ''{}'', Err = None\<rparr>, Receive 1, Cleanup 1])) 1 = None
   \<and> count_list [Call, WriteOk 0, Expire 0, Cleanup 0, Call, WriteOk 1,
       Response 2 \<lparr>Result = ''{}'', Err = None\<rparr>, Receive 1, Cleanup 1] (Receive 0) \<le> 1
   \<and> step (Response 1 \<lparr>Result = ''late'', Err = None\<rparr>)
       (the (run registry0 [Call, WriteOk 0, Expire 0, Cleanup 0, Call, WriteOk 1,
         Response 2 \<lparr>Result = ''{}'', Err = None\<rparr>, Receive 1, Cleanup 1]))
     = Some (the (run registry0 [Call, WriteOk 0, Expire 0, Cleanup 0, Call, WriteOk 1,
         Response 2 \<lparr>Result = ''{}'', Err = None\<rparr>, Receive 1, Cleanup 1]))"
proof -
  define evs where "evs = [Call, WriteOk 0, Expire 0, Cleanup 0, Call, WriteOk 1,
       Response 2 \<lparr>Result = ''{}'', Err = None\<rparr>, Receive 1, Cleanup 1]"
  define s where "s = the (run registry0 evs)"
  have r: "run registry0 evs = Some s"
    by (simp add: s_def evs_def eval_registry)
  have n: "ncalls s < 2 ^ 64"
    by (simp add: s_def evs_def eval_registry)
  have c: "blocked s = None \<and> calls s 0 = Some (Returned 1 DeadlineExceeded)"
    by (simp add: s_def evs_def eval_registry)
  from sendRequest_registry [OF r n, where ch = 0 and i = 1 and out = DeadlineExceeded
      and resp = "\<lparr>Result = ''late'', Err = None\<rparr>"] c r
  show ?thesis
    unfolding s_def evs_def by auto
qed

text \<open>
  The claim as written fails when the server answers one id twice around the deadline:
  the call has taken the deadline branch and waits for \<^verbatim>\<open>pendingMu\<close> to delete its
  entry; the first response fills the buffer; the second finds the entry, and the reader
  blocks in its send while holding the lock. From there the deferred delete, a receive,
  a further response and a new call are all impossible.
\<close>

theorem late_duplicate_response_counterexample:
  "map_option blocked (run registry0 [Call, WriteOk 0, Expire 0,
       Response 1 \<lparr>Result = ''a'', Err = None\<rparr>, Response 1 \<lparr>Result = ''b'', Err = None\<rparr>])
     = Some (Some (0, \<lparr>Result = ''b'', Err = None\<rparr>))
   \<and> map_option (\<lambda>s. calls s 0) (run registry0 [Call, WriteOk 0, Expire 0,
       Response 1 \<lparr>Result = ''a'', Err = None\<rparr>, Response 1 \<lparr>Result = ''b'', Err = None\<rparr>])
     = Some (Some (Leaving 1 DeadlineExceeded))
   \<and> run registry0 [Call, WriteOk 0, Expire 0,
       Response 1 \<lparr>Result = ''a'', Err = None\<rparr>, Response 1 \<lparr>Result = ''b'', Err = None\<rparr>,
       Cleanup 0] = None
   \<and> run registry0 [Call, WriteOk 0, Expire 0,
       Response 1 \<lparr>Result = ''a'', Err = None\<rparr>, Response 1 \<lparr>Result = ''b'', Err = None\<rparr>,
       Receive 0] = None
   \<and> run registry0 [Call, WriteOk 0, Expire 0,
       Response 1 \<lparr>Result = ''a'', Err = None\<rparr>, Response 1 \<lparr>Result = ''b'', Err = None\<rparr>,
       Response 0 \<lparr>Result = ''c'', Err = None\<rparr>] = None
   \<and> run registry0 [Call, WriteOk 0, Expire 0,
       Response 1 \<lparr>Result = ''a'', Err = None\<rparr>, Response 1 \<lparr>Result = ''b'', Err = None\<rparr>,
       Call] = None"
  by (simp add: eval_registry)

text \<open>
  C10. A response whose id is a JSON string that does not parse as a decimal integer
  decodes to an id with lookup key 0 and is routed as a response with key 0. In every
  execution with fewer than \<open>2^64\<close> calls the key 0 is not in the pending map (ids start
  at 1), so handling that response leaves the registry, and every waiting call,
  unchanged.
\<close>

theorem unparsable_string_id_ignored:
  assumes "run registry0 evs = Some s" and "ncalls s < 2 ^ 64" and "blocked s = None"
    and "ParseInt str = None"
    and "unm msg = Some \<lparr>w_id = Some (JString str), w_method = [], w_result = res,
           w_error = err\<rparr>"
  shows "UnmarshalJSON zeroID (JString str) = Inr \<lparr>intValue = None, strValue = Some str\<rparr>
     \<and> AsInt64 \<lparr>intValue = None, strValue = Some str\<rparr> = 0
     \<and> map_option (\<lambda>m. dispatch m msg) (decodeBaseMsg unm msg)
         = Some (Deliver 0 \<lparr>Result = res, Err = err\<rparr>)
     \<and> pending s 0 = None
     \<and> step (Response 0 \<lparr>Result = res, Err = err\<rparr>) s = Some s"
proof -
  have inv: "reg_inv s"
    using assms(1,2) by (rule run_registry0_inv)
  have zero: "pending s 0 = None"
    using inv assms(2) by (rule zero_not_pending)
  have parse: "UnmarshalJSON zeroID (JString str)
      = Inr \<lparr>intValue = None, strValue = Some str\<rparr>"
    using assms(4) by (simp add: UnmarshalJSON_def zeroID_def)
  have key: "AsInt64 \<lparr>intValue = None, strValue = Some str\<rparr> = 0"
    by (simp add: AsInt64_def)
  have "decodeBaseMsg unm msg = Some \<lparr>ID = Some \<lparr>intValue = None, strValue = Some str\<rparr>,
      Method = [], Result_b = res, Error_b = err\<rparr>"
    using assms(5) parse by (simp add: decodeBaseMsg_def)
  then have route: "map_option (\<lambda>m. dispatch m msg) (decodeBaseMsg unm msg)
      = Some (Deliver 0 \<lparr>Result = res, Err = err\<rparr>)"
    by (simp add: dispatch_def IsSet_def key)
  from parse key route zero assms(3) show ?thesis
    by simp
qed

text \<open>The id \<open>"abc"\<close> while one request, with id 1, waits in its select.\<close>

theorem unparsable_string_id_ignored_witness:
  "run registry0 [Call, WriteOk 0] \<noteq> None
   \<and> ParseInt ''abc'' = None
   \<and> map_option (\<lambda>m. dispatch m ''{}'')
       (decodeBaseMsg (\<lambda>b. Some \<lparr>w_id = Some (JString ''abc''), w_method = [],
          w_result = ''1'', w_error = None\<rparr>) ''{}'')
     = Some (Deliver 0 \<lparr>Result = ''1'', Err = None\<rparr>)
   \<and> calls (the (run registry0 [Call, WriteOk 0])) 0 = Some (Selecting 1)
   \<and> step (Response 0 \<lparr>Result = ''1'', Err = None\<rparr>) (the (run registry0 [Call, WriteOk 0]))
     = Some (the (run registry0 [Call, WriteOk 0]))"
proof -
  define s where "s = the (run registry0 [Call, WriteOk 0])"
  have r: "run registry0 [Call, WriteOk 0] = Some s"
    by (simp add: s_def eval_registry)
  have n: "ncalls s < 2 ^ 64" and b: "blocked s = None"
    and c: "calls s 0 = Some (Selecting 1)"
    by (simp_all add: s_def eval_registry)
  have p: "ParseInt ''abc'' = None"
    by (simp add: ParseInt_def ParseUint_def isDigit_def)
  from unparsable_string_id_ignored [where unm = "\<lambda>b. Some \<lparr>w_id = Some (JString ''abc''),
      w_method = [], w_result = ''1'', w_error = None\<rparr>" and msg = "''{}''", OF r n b p] r c p
  show ?thesis
    unfolding s_def by auto
qed

subsection \<open>Document registry\<close>




subsection \<open>Error responses of the API\<close>





subsection \<open>Start of the file watcher\<close>







subsection \<open>Polling during indexing\<close>

lemma changed_event:
  "\<lparr>URI = u, Type = 2\<rparr> \<in> set (detectChanges oldFiles newFiles) \<longleftrightarrow>
   (\<exists>path m m'. (path, m') \<in> set newFiles \<and> map_of oldFiles path = Some m \<and> m' \<noteq> m
      \<and> u = pathToURI path)"
proof
  assume "\<lparr>URI = u, Type = 2\<rparr> \<in> set (detectChanges oldFiles newFiles)"
  then show "\<exists>path m m'. (path, m') \<in> set newFiles \<and> map_of oldFiles path = Some m
      \<and> m' \<noteq> m \<and> u = pathToURI path"
    by (auto simp: detectChanges_def newAndChanged_def deletedFiles_def
        split: option.splits if_splits)
next
  assume "\<exists>path m m'. (path, m') \<in> set newFiles \<and> map_of oldFiles path = Some m
      \<and> m' \<noteq> m \<and> u = pathToURI path"
  then obtain path m m' where e: "(path, m') \<in> set newFiles"
    "map_of oldFiles path = Some m" "m' \<noteq> m" "u = pathToURI path"
    by blast
  have "\<lparr>URI = u, Type = 2\<rparr> \<in> set (newAndChanged oldFiles newFiles)"
    unfolding newAndChanged_def set_concat set_map
    by (rule UN_I [OF imageI [OF e(1)]]) (simp add: e)
  then show "\<lparr>URI = u, Type = 2\<rparr> \<in> set (detectChanges oldFiles newFiles)"
    by (simp add: detectChanges_def)
qed

text \<open>
  C1 (as the code has it). While the active flag is set a tick of the polling watcher
  writes nothing to the server: no \<^verbatim>\<open>workspace/didChangeWatchedFiles\<close> is sent. Every
  tick replaces the snapshot by the new scan, also while notifications are skipped. So
  the first tick after indexing compares its scan with the last scan taken during
  indexing: it sends the changes between those two, and a \<open>Changed\<close> event for a file
  exactly when the file's modification time differs between those two scans.
\<close>

theorem polling_during_indexing:
  "(indexingActive p \<longrightarrow>
      pollingTick marshal scan p (pw, pipe) = (pw\<lparr>fileMap := scan\<rparr>, pipe))
   \<and> fileMap (snd (checkForChanges scan isIndexing hasNotify pw)) = scan
   \<and> (indexingActive p \<and> \<not> indexingActive p' \<longrightarrow>
        fst (pollingTick marshal scan' p' (pollingTick marshal scan p (pw, pipe)))
          = pw\<lparr>fileMap := scan'\<rparr>
        \<and> snd (pollingTick marshal scan' p' (pollingTick marshal scan p (pw, pipe)))
          = (if detectChanges scan scan' = [] then pipe
             else snd (sendNotification marshal ''workspace/didChangeWatchedFiles''
                         (ChangesParams (detectChanges scan scan')) pipe)))
   \<and> (\<lparr>URI = u, Type = 2\<rparr> \<in> set (detectChanges scan scan') \<longleftrightarrow>
        (\<exists>path m m'. (path, m') \<in> set scan' \<and> map_of scan path = Some m \<and> m' \<noteq> m
           \<and> u = pathToURI path))"
proof -
  have during: "pollingTick marshal scan p (pw, pipe) = (pw\<lparr>fileMap := scan\<rparr>, pipe)"
    if "indexingActive p"
    using that by (simp add: pollingTick_def checkForChanges_def Let_def)
  have snap: "fileMap (snd (checkForChanges scan isIndexing hasNotify pw)) = scan"
    by (simp add: checkForChanges_def Let_def)
  have after: "pollingTick marshal scan' p' (pw\<lparr>fileMap := scan\<rparr>, pipe)
      = (pw\<lparr>fileMap := scan'\<rparr>,
         if detectChanges scan scan' = [] then pipe
         else snd (sendNotification marshal ''workspace/didChangeWatchedFiles''
                     (ChangesParams (detectChanges scan scan')) pipe))"
    if "\<not> indexingActive p'"
    using that by (simp add: pollingTick_def checkForChanges_def Let_def)
  from during snap after changed_event [of u scan scan'] show ?thesis
    by simp
qed

text \<open>
  A file modified during indexing (time 1 to 2) and again afterwards (2 to 3): nothing
  is sent during indexing, and the later tick sends one \<open>Changed\<close> event.
\<close>

theorem polling_during_indexing_witness:
  "pollingTick sampleMarshal [(''/p/a.bsl'', 2)] (progress0\<lparr>indexingActive := True\<rparr>)
       (\<lparr>fileMap = [(''/p/a.bsl'', 1)], running = True\<rparr>, pipe0)
     = (\<lparr>fileMap = [(''/p/a.bsl'', 1)], running = True\<rparr>\<lparr>fileMap := [(''/p/a.bsl'', 2)]\<rparr>,
        pipe0)
   \<and> snd (pollingTick sampleMarshal [(''/p/a.bsl'', 3)] progress0
       (pollingTick sampleMarshal [(''/p/a.bsl'', 2)] (progress0\<lparr>indexingActive := True\<rparr>)
          (\<lparr>fileMap = [(''/p/a.bsl'', 1)], running = True\<rparr>, pipe0)))
     = (if detectChanges [(''/p/a.bsl'', 2)] [(''/p/a.bsl'', 3)] = [] then pipe0
        else snd (sendNotification sampleMarshal ''workspace/didChangeWatchedFiles''
                    (ChangesParams (detectChanges [(''/p/a.bsl'', 2)] [(''/p/a.bsl'', 3)]))
                    pipe0))
   \<and> detectChanges [(''/p/a.bsl'', 2)] [(''/p/a.bsl'', 3)]
     = [\<lparr>URI = ''file:///p/a.bsl'', Type = 2\<rparr>]
   \<and> written (snd (sendNotification sampleMarshal ''workspace/didChangeWatchedFiles''
         (ChangesParams [\<lparr>URI = ''file:///p/a.bsl'', Type = 2\<rparr>]) pipe0))
     = frame ''workspace/didChangeWatchedFiles''"
proof -
  have a: "indexingActive (progress0\<lparr>indexingActive := True\<rparr>)"
    and b: "\<not> indexingActive progress0"
    by (simp_all add: progress0_def)
  have d: "detectChanges [(''/p/a.bsl'', 2)] [(''/p/a.bsl'', 3)]
      = [\<lparr>URI = ''file:///p/a.bsl'', Type = 2\<rparr>]"
    by (simp add: detectChanges_def newAndChanged_def deletedFiles_def pathToURI_def
        HasPrefix_def)
  have w: "written (snd (sendNotification sampleMarshal ''workspace/didChangeWatchedFiles''
         (ChangesParams [\<lparr>URI = ''file:///p/a.bsl'', Type = 2\<rparr>]) pipe0))
     = frame ''workspace/didChangeWatchedFiles''"
    by (simp add: sendNotification_def sampleMarshal_def writeMessage_def Write_def pipe0_def
        frame_def)
  from polling_during_indexing [of "progress0\<lparr>indexingActive := True\<rparr>" sampleMarshal
      "[(''/p/a.bsl'', 2)]" "\<lparr>fileMap = [(''/p/a.bsl'', 1)], running = True\<rparr>" pipe0
      _ _ progress0 "[(''/p/a.bsl'', 3)]"] a b d w
  show ?thesis
    by blast
qed

text \<open>
  The claim as written fails: a file modified during indexing (time 1 to 2) and not
  touched again is never reported. The tick during indexing advances the snapshot to
  time 2 and sends nothing; the first tick after indexing finds no difference and sends
  nothing either.
\<close>

theorem polling_lost_change_counterexample:
  "written (snd (pollingTick sampleMarshal [(''/p/a.bsl'', 2)] progress0
       (pollingTick sampleMarshal [(''/p/a.bsl'', 2)] (progress0\<lparr>indexingActive := True\<rparr>)
          (\<lparr>fileMap = [(''/p/a.bsl'', 1)], running = True\<rparr>, pipe0)))) = []
   \<and> fileMap (fst (pollingTick sampleMarshal [(''/p/a.bsl'', 2)]
       (progress0\<lparr>indexingActive := True\<rparr>)
       (\<lparr>fileMap = [(''/p/a.bsl'', 1)], running = True\<rparr>, pipe0))) = [(''/p/a.bsl'', 2)]"
  by (simp add: pollingTick_def checkForChanges_def detectChanges_def newAndChanged_def
      deletedFiles_def progress0_def pipe0_def Let_def)

end
